theory Spec2Isabelle
  imports Main
begin

section \<open>Tic-tac-toe with move history (exercise 06/03): the data model\<close>

text \<open>
  The component \<open>App\<close> of \<open>index.tsx\<close> keeps one value of type \<open>GameState\<close>: a list of
  board snapshots (\<open>history\<close>) and a cursor into it (\<open>currentStep\<close>). A cell of a
  snapshot is \<open>null\<close>, \<open>'X'\<close> or \<open>'O'\<close>; \<open>null\<close> is \<open>None\<close> here. JavaScript numbers
  that are not integers are outside this model: \<open>currentStep\<close> and a square's index are
  \<open>int\<close>.
\<close>

text \<open>The type \<open>Player\<close>, \<open>'X' | 'O'\<close>; \<open>'X'\<close> is the spec's markerA.\<close>

datatype Player = PlayerX | PlayerO

type_synonym Squares = "Player option list"

record GameState =
  history :: "Squares list"
  currentStep :: int

text \<open>The exceptions the array operations of the component can raise.\<close>

datatype js_error = TypeError | RangeError

subsection \<open>JavaScript array operations used by the component\<close>

text \<open>\<open>xs[i]\<close>: \<open>undefined\<close> (here \<open>None\<close>) outside \<open>0 .. length - 1\<close>.\<close>

definition js_index :: "'a list \<Rightarrow> int \<Rightarrow> 'a option" where
  "js_index xs i = (if 0 \<le> i \<and> i < int (length xs) then Some (xs ! nat i) else None)"

text \<open>\<open>xs.slice(0, e)\<close>: a negative end counts from the end, and the end is clamped.\<close>

definition js_slice0 :: "'a list \<Rightarrow> int \<Rightarrow> 'a list" where
  "js_slice0 xs e =
     (let len = int (length xs);
          final = (if e < 0 then max (len + e) 0 else min e len)
      in take (nat final) xs)"

text \<open>
  \<open>xs.with(i, v)\<close>: a copy with one index replaced; a negative index counts from the
  end; an index outside the array raises \<open>RangeError\<close>.
\<close>

definition js_with :: "'a list \<Rightarrow> int \<Rightarrow> 'a \<Rightarrow> js_error + 'a list" where
  "js_with xs i v =
     (let len = int (length xs);
          actual = (if 0 \<le> i then i else len + i)
      in if actual \<ge> len \<or> actual < 0 then Inl RangeError
         else Inr (xs[nat actual := v]))"

text \<open>Truthiness of what a read of a snapshot gives: only a marker is truthy.\<close>

fun truthy :: "Player option option \<Rightarrow> bool" where
  "truthy (Some (Some p)) = True"
| "truthy _ = False"

subsection \<open>The helpers imported from \<open>#shared/tic-tac-toe-utils\<close>\<close>

text \<open>
  Modelled from the spec: \<open>calculateNextValue\<close> (the spec's \<open>nextMover\<close>) is imported
  from \<open>#shared/tic-tac-toe-utils\<close>, which is not among the sources. The spec: it
  "alternates based on count of filled cells (even count \<open>\<rightarrow>\<close> markerA, odd \<open>\<rightarrow>\<close> markerB)";
  markerA is \<open>'X'\<close>.
\<close>

definition calculateNextValue :: "Squares \<Rightarrow> Player" where
  "calculateNextValue squares =
     (if even (length (filter (\<lambda>c. c \<noteq> None) squares)) then PlayerX else PlayerO)"

text \<open>
  Modelled from the spec: \<open>calculateWinner\<close> (the spec's \<open>winner\<close>) is imported from
  \<open>#shared/tic-tac-toe-utils\<close>, which is not among the sources. The spec: it "checks all
  8 lines (3 rows, 3 columns, 2 diagonals) for three equal non-empty markers". The lines
  are tried in that order and the first complete one gives the winner.
\<close>

definition winLines :: "(nat \<times> nat \<times> nat) list" where
  "winLines = [(0, 1, 2), (3, 4, 5), (6, 7, 8),
               (0, 3, 6), (1, 4, 7), (2, 5, 8),
               (0, 4, 8), (2, 4, 6)]"

text \<open>
  Modelled from the spec: the read of a cell in \<open>calculateWinner\<close>; a cell that the
  snapshot does not have is no marker.
\<close>

definition cellAt :: "Squares \<Rightarrow> nat \<Rightarrow> Player option" where
  "cellAt squares i = (if i < length squares then squares ! i else None)"

text \<open>
  Modelled from the spec: one line of \<open>calculateWinner\<close>, "three equal non-empty
  markers".
\<close>

fun lineWinner :: "Squares \<Rightarrow> nat \<times> nat \<times> nat \<Rightarrow> Player option" where
  "lineWinner squares (a, b, c) =
     (case cellAt squares a of
        None \<Rightarrow> None
      | Some p \<Rightarrow> if cellAt squares b = Some p \<and> cellAt squares c = Some p
                  then Some p else None)"

text \<open>Modelled from the spec: the loop of \<open>calculateWinner\<close> over the lines.\<close>

fun firstWinner :: "Squares \<Rightarrow> (nat \<times> nat \<times> nat) list \<Rightarrow> Player option" where
  "firstWinner squares [] = None"
| "firstWinner squares (l # ls) =
     (case lineWinner squares l of
        Some p \<Rightarrow> Some p
      | None \<Rightarrow> firstWinner squares ls)"

text \<open>
  Modelled from the spec: \<open>calculateWinner\<close> of \<open>#shared/tic-tac-toe-utils\<close>, the marker
  of the first complete line, or \<open>null\<close>.
\<close>

definition calculateWinner :: "Squares \<Rightarrow> Player option" where
  "calculateWinner squares = firstWinner squares winLines"

section \<open>The component's state and its transitions\<close>

text \<open>\<open>defaultState\<close> (lines 53-56): one snapshot of nine \<open>null\<close>s, cursor 0.\<close>

definition defaultState :: GameState where
  "defaultState = \<lparr>history = [replicate 9 None], currentStep = 0\<rparr>"

text \<open>
  The function given to \<open>setState\<close> in \<open>selectSquare\<close> (lines 100-112), with the
  \<open>nextValue\<close> of the render it closes over. \<open>history[currentStep]\<close> outside the history is
  \<open>undefined\<close>, and calling \<open>.with\<close> on it raises \<open>TypeError\<close>.
\<close>

definition selectSquare_update :: "Player \<Rightarrow> int \<Rightarrow> GameState \<Rightarrow> js_error + GameState" where
  "selectSquare_update nextValue index previousState =
     (let newHistory = js_slice0 (history previousState) (currentStep previousState + 1)
      in case js_index (history previousState) (currentStep previousState) of
           None \<Rightarrow> Inl TypeError
         | Some current \<Rightarrow>
             (case js_with current index (Some nextValue) of
                Inl e \<Rightarrow> Inl e
              | Inr squares \<Rightarrow>
                  Inr \<lparr>history = newHistory @ [squares],
                       currentStep = int (length newHistory)\<rparr>))"

text \<open>
  \<open>selectSquare\<close> (lines 97-113), a click on a square. A click is handled after the render
  of the state it sees, so the \<open>previousState\<close> of the update is that state. \<open>winner\<close> and
  \<open>nextValue\<close> are those of lines 83-84, computed from \<open>state.history[state.currentStep]\<close>;
  where that is \<open>undefined\<close> reading a property of it raises \<open>TypeError\<close>. The early
  \<open>return\<close> of line 98 leaves the state as it is.
\<close>

definition selectSquare :: "GameState \<Rightarrow> int \<Rightarrow> js_error + GameState" where
  "selectSquare state index =
     (case js_index (history state) (currentStep state) of
        None \<Rightarrow> Inl TypeError
      | Some current \<Rightarrow>
          if calculateWinner current \<noteq> None \<or> truthy (js_index current index)
          then Inr state
          else selectSquare_update (calculateNextValue current) index state)"

text \<open>\<open>restart\<close> (lines 115-118).\<close>

definition restart :: "GameState \<Rightarrow> GameState" where
  "restart state = defaultState"

text \<open>
  The list of moves (lines 127-142): one button for each index of the history, and the
  click handler of the button of \<open>step\<close>, which replaces \<open>currentStep\<close> only. The button
  of the current step is disabled; its handler would leave the state as it is.
\<close>

definition moveSteps :: "GameState \<Rightarrow> int list" where
  "moveSteps state = map int [0 ..< length (history state)]"

definition jumpToStep :: "GameState \<Rightarrow> int \<Rightarrow> GameState" where
  "jumpToStep previousState step = previousState\<lparr>currentStep := step\<rparr>"

section \<open>Persistence: the JSON text in \<open>localStorage\<close>\<close>

text \<open>
  What \<open>JSON.parse\<close> returns. Numbers are integers here: fractions and exponents are
  outside this model. An object keeps its members in the order of the text.
\<close>

datatype json =
    JNull
  | JBool bool
  | JNum int
  | JStr string
  | JArr "json list"
  | JObj "(string \<times> json) list"

text \<open>\<open>value[key]\<close> on a parsed object: the last member of that name counts.\<close>

definition obj_get :: "(string \<times> json) list \<Rightarrow> string \<Rightarrow> json option" where
  "obj_get members key = map_of (rev members) key"

subsection \<open>Reading a parsed value as a \<open>GameState\<close>\<close>

text \<open>
  Modelled from the spec: the shape that \<open>isValidGameState\<close> of
  \<open>#shared/tic-tac-toe-utils\<close> (not among the sources) asks of a parsed value, which is
  the spec's shape of the stored state, \<open>{history: Array<Array<marker|null>>,
  currentStep: number}\<close>. \<open>readGameState\<close> gives the state that a value of this shape
  is, and \<open>None\<close> for any other value; members of other names are not looked at.
\<close>

fun readCell :: "json \<Rightarrow> Player option option" where
  "readCell JNull = Some None"
| "readCell (JStr s) =
     (if s = ''X'' then Some (Some PlayerX)
      else if s = ''O'' then Some (Some PlayerO)
      else None)"
| "readCell _ = None"

text \<open>Modelled from the spec: a snapshot is an array of cells.\<close>

fun readSquares :: "json \<Rightarrow> Squares option" where
  "readSquares (JArr cells) = those (map readCell cells)"
| "readSquares _ = None"

text \<open>
  Modelled from the spec: a state is an object with an array of snapshots as \<open>history\<close>
  and a number as \<open>currentStep\<close>.
\<close>

fun readGameState :: "json \<Rightarrow> GameState option" where
  "readGameState (JObj members) =
     (case (obj_get members ''history'', obj_get members ''currentStep'') of
        (Some (JArr snapshots), Some (JNum step)) \<Rightarrow>
          (case those (map readSquares snapshots) of
             Some h \<Rightarrow> Some \<lparr>history = h, currentStep = step\<rparr>
           | None \<Rightarrow> None)
      | _ \<Rightarrow> None)"
| "readGameState _ = None"

text \<open>
  Modelled from the spec: the structural conditions that \<open>isValidGameState\<close> checks and
  that the spec's data model puts on a \<open>GameState\<close>: a non-empty history of snapshots
  of nine cells, and a cursor inside the history.
\<close>

definition validGameState :: "GameState \<Rightarrow> bool" where
  "validGameState s \<longleftrightarrow>
     history s \<noteq> []
     \<and> list_all (\<lambda>squares. length squares = 9) (history s)
     \<and> 0 \<le> currentStep s \<and> currentStep s < int (length (history s))"

text \<open>
  Modelled from the spec: \<open>isValidGameState\<close> (the spec's \<open>isValidState\<close>) is imported
  from \<open>#shared/tic-tac-toe-utils\<close>, which is not among the sources. The spec:
  "structural validation used when deserializing persisted state (must have history as
  non-empty sequence of valid 9-cell snapshots, currentStep in range)".
\<close>

definition isValidGameState :: "json \<Rightarrow> bool" where
  "isValidGameState v =
     (case readGameState v of
        None \<Rightarrow> False
      | Some s \<Rightarrow> validGameState s)"

subsection \<open>The initial state (lines 62-78)\<close>

text \<open>
  The initialiser given to \<open>useState\<close>. \<open>item\<close> is what \<open>localStorage.getItem\<close> returns
  (\<open>None\<close> for \<open>null\<close>, no entry), and \<open>parse\<close> is \<open>JSON.parse\<close>, with \<open>None\<close> where it
  throws. A value that passes \<open>isValidGameState\<close> is used as the state; the record keeps
  its \<open>history\<close> and its \<open>currentStep\<close>.
\<close>

definition initialState :: "(string \<Rightarrow> json option) \<Rightarrow> string option \<Rightarrow> GameState" where
  "initialState parse item =
     (case parse (case item of None \<Rightarrow> ''null'' | Some text \<Rightarrow> text) of
        None \<Rightarrow> defaultState
      | Some localStorageValue \<Rightarrow>
          if isValidGameState localStorageValue
          then (case readGameState localStorageValue of
                  Some s \<Rightarrow> s
                | None \<Rightarrow> defaultState)
          else defaultState)"

subsection \<open>\<open>JSON.stringify\<close> of a state (line 93)\<close>

definition digit_char :: "nat \<Rightarrow> char" where
  "digit_char d = char_of (48 + d)"

fun show_nat :: "nat \<Rightarrow> string" where
  "show_nat n = (if n < 10 then [digit_char n] else show_nat (n div 10) @ [digit_char (n mod 10)])"

declare show_nat.simps [simp del]

definition show_int :: "int \<Rightarrow> string" where
  "show_int i = (if i < 0 then CHR ''-'' # show_nat (nat (- i)) else show_nat (nat i))"

definition quote :: "string \<Rightarrow> string" where
  "quote s = CHR 0x22 # s @ [CHR 0x22]"

fun commaSep :: "string list \<Rightarrow> string" where
  "commaSep [] = []"
| "commaSep [x] = x"
| "commaSep (x # y # ys) = x @ CHR '','' # commaSep (y # ys)"

fun stringifyCell :: "Player option \<Rightarrow> string" where
  "stringifyCell None = ''null''"
| "stringifyCell (Some PlayerX) = quote ''X''"
| "stringifyCell (Some PlayerO) = quote ''O''"

definition stringifySquares :: "Squares \<Rightarrow> string" where
  "stringifySquares squares = CHR ''['' # commaSep (map stringifyCell squares) @ '']''"

text \<open>
  \<open>JSON.stringify(state)\<close> for a state with the two properties \<open>history\<close> and
  \<open>currentStep\<close>, in this order: the text has no white space.
\<close>

definition JSON_stringify :: "GameState \<Rightarrow> string" where
  "JSON_stringify state =
     CHR ''{'' # quote ''history'' @ CHR '':'' # CHR ''[''
       # commaSep (map stringifySquares (history state))
       @ CHR '']'' # CHR '','' # quote ''currentStep'' @ CHR '':''
       # show_int (currentStep state) @ ''}''"

text \<open>The effect of lines 91-95: what the slot of \<open>localStorage\<close> holds afterwards.\<close>

definition persist :: "GameState \<Rightarrow> string option" where
  "persist state = Some (JSON_stringify state)"

text \<open>
  The value that the text of a state stands for: \<open>null\<close> or a string for a cell, an
  array for a snapshot, an object with the two members for a state.
\<close>

fun cellJSON :: "Player option \<Rightarrow> json" where
  "cellJSON None = JNull"
| "cellJSON (Some PlayerX) = JStr ''X''"
| "cellJSON (Some PlayerO) = JStr ''O''"

definition squaresJSON :: "Squares \<Rightarrow> json" where
  "squaresJSON squares = JArr (map cellJSON squares)"

definition stateJSON :: "GameState \<Rightarrow> json" where
  "stateJSON state =
     JObj [(''history'', JArr (map squaresJSON (history state))),
           (''currentStep'', JNum (currentStep state))]"

subsection \<open>\<open>JSON.parse\<close>\<close>

text \<open>
  A recursive-descent reader for JSON texts of ASCII characters: white space, \<open>null\<close>,
  \<open>true\<close>, \<open>false\<close>, integers, strings with the two-character escapes, arrays and
  objects. Fractions, exponents and \<open>\u\<close> escapes are outside this model (the reader gives
  \<open>None\<close> there). The recursion runs on fuel, one unit for each nested call; \<open>JSON_parse\<close>
  starts with more than twice the length of the text, from where on more fuel changes
  nothing (\<open>parse_value_fuel\<close> below).
\<close>

definition is_ws :: "char \<Rightarrow> bool" where
  "is_ws c \<longleftrightarrow> c = CHR 0x20 \<or> c = CHR 0x09 \<or> c = CHR 0x0A \<or> c = CHR 0x0D"

definition skip_ws :: "string \<Rightarrow> string" where
  "skip_ws s = dropWhile is_ws s"

definition is_digit :: "char \<Rightarrow> bool" where
  "is_digit c \<longleftrightarrow> (48::nat) \<le> of_char c \<and> of_char c \<le> (57::nat)"

definition digit_val :: "char \<Rightarrow> nat" where
  "digit_val c = of_char c - 48"

fun strip_prefix :: "string \<Rightarrow> string \<Rightarrow> string option" where
  "strip_prefix [] s = Some s"
| "strip_prefix (p # ps) [] = None"
| "strip_prefix (p # ps) (c # cs) = (if p = c then strip_prefix ps cs else None)"

definition unescape :: "char \<Rightarrow> char option" where
  "unescape e =
     (if e = CHR 0x22 \<or> e = CHR 0x5C \<or> e = CHR ''/'' then Some e
      else if e = CHR ''b'' then Some (CHR 0x08)
      else if e = CHR ''f'' then Some (CHR 0x0C)
      else if e = CHR ''n'' then Some (CHR 0x0A)
      else if e = CHR ''r'' then Some (CHR 0x0D)
      else if e = CHR ''t'' then Some (CHR 0x09)
      else None)"

text \<open>The characters of a string after its opening quote, up to the closing quote.\<close>

fun parse_string :: "string \<Rightarrow> (string \<times> string) option" where
  "parse_string [] = None"
| "parse_string (c # cs) =
     (if c = CHR 0x22 then Some ([], cs)
      else if c = CHR 0x5C then
        (case cs of
           [] \<Rightarrow> None
         | e # cs' \<Rightarrow>
             (case unescape e of
                None \<Rightarrow> None
              | Some d \<Rightarrow> map_option (apfst ((#) d)) (parse_string cs')))
      else if (of_char c :: nat) < 32 then None
      else map_option (apfst ((#) c)) (parse_string cs))"

fun parse_digits :: "nat \<Rightarrow> string \<Rightarrow> nat \<times> string" where
  "parse_digits acc [] = (acc, [])"
| "parse_digits acc (c # cs) =
     (if is_digit c then parse_digits (10 * acc + digit_val c) cs else (acc, c # cs))"

text \<open>A number without sign: a single \<open>0\<close>, or digits that do not start with \<open>0\<close>.\<close>

definition parse_unsigned :: "string \<Rightarrow> (nat \<times> string) option" where
  "parse_unsigned s =
     (case s of
        [] \<Rightarrow> None
      | d # ds \<Rightarrow>
          if \<not> is_digit d then None
          else (let (n, rest) = (if d = CHR ''0'' then (0, ds) else parse_digits 0 s)
                in case rest of
                     [] \<Rightarrow> Some (n, rest)
                   | e # _ \<Rightarrow> if e = CHR ''.'' \<or> e = CHR ''e'' \<or> e = CHR ''E'' then None
                              else Some (n, rest)))"

definition parse_number :: "string \<Rightarrow> (json \<times> string) option" where
  "parse_number s =
     (case s of
        [] \<Rightarrow> None
      | c # cs \<Rightarrow>
          if c = CHR ''-''
          then map_option (\<lambda>(n, rest). (JNum (- int n), rest)) (parse_unsigned cs)
          else map_option (\<lambda>(n, rest). (JNum (int n), rest)) (parse_unsigned s))"

fun parse_value :: "nat \<Rightarrow> string \<Rightarrow> (json \<times> string) option"
  and parse_elems :: "nat \<Rightarrow> string \<Rightarrow> (json list \<times> string) option"
  and parse_members :: "nat \<Rightarrow> string \<Rightarrow> ((string \<times> json) list \<times> string) option"
where
  "parse_value 0 s = None"
| "parse_value (Suc n) s =
     (case skip_ws s of
        [] \<Rightarrow> None
      | c # r \<Rightarrow>
          if c = CHR ''['' then
            (case skip_ws r of
               [] \<Rightarrow> None
             | d # r' \<Rightarrow>
                 if d = CHR '']'' then Some (JArr [], r')
                 else map_option (apfst JArr) (parse_elems n r))
          else if c = CHR ''{'' then
            (case skip_ws r of
               [] \<Rightarrow> None
             | d # r' \<Rightarrow>
                 if d = CHR ''}'' then Some (JObj [], r')
                 else map_option (apfst JObj) (parse_members n r))
          else if c = CHR 0x22 then map_option (apfst JStr) (parse_string r)
          else if c = CHR ''-'' \<or> is_digit c then parse_number (c # r)
          else
            (case strip_prefix ''null'' (c # r) of
               Some r' \<Rightarrow> Some (JNull, r')
             | None \<Rightarrow>
                 (case strip_prefix ''true'' (c # r) of
                    Some r' \<Rightarrow> Some (JBool True, r')
                  | None \<Rightarrow>
                      (case strip_prefix ''false'' (c # r) of
                         Some r' \<Rightarrow> Some (JBool False, r')
                       | None \<Rightarrow> None))))"
| "parse_elems 0 s = None"
| "parse_elems (Suc n) s =
     (case parse_value n s of
        None \<Rightarrow> None
      | Some (v, r) \<Rightarrow>
          (case skip_ws r of
             [] \<Rightarrow> None
           | c # r' \<Rightarrow>
               if c = CHR '']'' then Some ([v], r')
               else if c = CHR '','' then map_option (apfst ((#) v)) (parse_elems n r')
               else None))"
| "parse_members 0 s = None"
| "parse_members (Suc n) s =
     (case skip_ws s of
        [] \<Rightarrow> None
      | q # r \<Rightarrow>
          if q \<noteq> CHR 0x22 then None
          else
            (case parse_string r of
               None \<Rightarrow> None
             | Some (key, r1) \<Rightarrow>
                 (case skip_ws r1 of
                    [] \<Rightarrow> None
                  | c1 # r2 \<Rightarrow>
                      if c1 \<noteq> CHR '':'' then None
                      else
                        (case parse_value n r2 of
                           None \<Rightarrow> None
                         | Some (v, r3) \<Rightarrow>
                             (case skip_ws r3 of
                                [] \<Rightarrow> None
                              | c3 # r4 \<Rightarrow>
                                  if c3 = CHR ''}'' then Some ([(key, v)], r4)
                                  else if c3 = CHR '','' then
                                    map_option (apfst ((#) (key, v))) (parse_members n r4)
                                  else None)))))"

definition JSON_parse :: "string \<Rightarrow> json option" where
  "JSON_parse text =
     (case parse_value (2 * length text + 1) text of
        None \<Rightarrow> None
      | Some (v, rest) \<Rightarrow> if skip_ws rest = [] then Some v else None)"

text \<open>
  Two conditions on texts, used to state what the reader does: what may follow a number
  (no digit, no fraction, no exponent), and how the text of a value starts (no white
  space, no closing bracket).
\<close>

definition number_end :: "string \<Rightarrow> bool" where
  "number_end rest \<longleftrightarrow>
     (case rest of
        [] \<Rightarrow> True
      | e # _ \<Rightarrow> \<not> is_digit e \<and> e \<noteq> CHR ''.'' \<and> e \<noteq> CHR ''e'' \<and> e \<noteq> CHR ''E'')"

definition value_start :: "string \<Rightarrow> bool" where
  "value_start s \<longleftrightarrow>
     (case s of
        [] \<Rightarrow> False
      | c # _ \<Rightarrow> \<not> is_ws c \<and> c \<noteq> CHR '']'')"

section \<open>The states the component can reach\<close>

text \<open>
  The events of the component: a click on one of the nine squares that \<open>Board\<close> renders
  (lines 34-46), a click on the button of a step of the list of moves, and a click on
  \<open>restart\<close>. \<open>reachable s0 s\<close>: the component started in \<open>s0\<close> can be in \<open>s\<close>.
\<close>

inductive reachable :: "GameState \<Rightarrow> GameState \<Rightarrow> bool" for s0 :: GameState where
  reachable_init: "reachable s0 s0"
| reachable_select:
    "reachable s0 s \<Longrightarrow> 0 \<le> i \<Longrightarrow> i < 9 \<Longrightarrow> selectSquare s i = Inr s' \<Longrightarrow> reachable s0 s'"
| reachable_jump:
    "reachable s0 s \<Longrightarrow> step \<in> set (moveSteps s) \<Longrightarrow> reachable s0 (jumpToStep s step)"
| reachable_restart: "reachable s0 s \<Longrightarrow> reachable s0 (restart s)"

text \<open>The cursor points into the history (so the history is not empty).\<close>

definition cursorInRange :: "GameState \<Rightarrow> bool" where
  "cursorInRange s \<longleftrightarrow>
     history s \<noteq> [] \<and> 0 \<le> currentStep s \<and> currentStep s < int (length (history s))"

text \<open>
  The cells in which two snapshots differ, and: \<open>b\<close> is \<open>a\<close> with exactly one empty
  cell filled in.
\<close>

definition changedCells :: "Squares \<Rightarrow> Squares \<Rightarrow> (Player option \<times> Player option) list" where
  "changedCells a b = filter (\<lambda>(x, y). x \<noteq> y) (zip a b)"

definition oneCellFilled :: "Squares \<Rightarrow> Squares \<Rightarrow> bool" where
  "oneCellFilled a b \<longleftrightarrow>
     length a = length b
     \<and> (case changedCells a b of
          [(None, Some p)] \<Rightarrow> True
        | _ \<Rightarrow> False)"

definition historySteps :: "Squares list \<Rightarrow> bool" where
  "historySteps h = list_all (\<lambda>i. oneCellFilled (h ! (i - 1)) (h ! i)) [1 ..< length h]"

section \<open>Properties of a move\<close>

lemma js_index_Some:
  "js_index xs i = Some x \<longleftrightarrow> 0 \<le> i \<and> i < int (length xs) \<and> x = xs ! nat i"
  by (auto simp: js_index_def)

lemma js_slice0_in_range:
  "0 \<le> c \<Longrightarrow> c < int (length xs) \<Longrightarrow> js_slice0 xs (c + 1) = take (Suc (nat c)) xs"
  by (simp add: js_slice0_def Let_def min_def nat_add_distrib)

lemma js_with_in_range:
  "0 \<le> i \<Longrightarrow> i < int (length xs) \<Longrightarrow> js_with xs i v = Inr (xs[nat i := v])"
  by (simp add: js_with_def Let_def)

lemma selectSquare_update_in_range:
  assumes "0 \<le> currentStep s" and "currentStep s < int (length (history s))"
    and "0 \<le> i" and "i < int (length (history s ! nat (currentStep s)))"
  shows "selectSquare_update v i s =
           Inr \<lparr>history = take (Suc (nat (currentStep s))) (history s)
                            @ [(history s ! nat (currentStep s))[nat i := Some v]],
                currentStep = currentStep s + 1\<rparr>"
proof -
  have len: "int (length (take (Suc (nat (currentStep s))) (history s))) = currentStep s + 1"
    using assms(1,2) by simp
  show ?thesis
    using assms len
    by (simp add: selectSquare_update_def js_slice0_in_range js_index_def js_with_in_range)
qed

lemma replicate_nine: "replicate 9 x = [x, x, x, x, x, x, x, x, x]"
  by (simp add: eval_nat_numeral)

lemmas board_simps =
  calculateWinner_def winLines_def cellAt_def calculateNextValue_def

text \<open>
  Claim C1. Where the cursor is inside the history, the square \<open>i\<close> is a cell of the
  current snapshot and is empty there, and the current snapshot has no winner,
  \<open>selectSquare\<close> gives the history cut after the current step with one snapshot more, the
  current one with the next player's marker at \<open>i\<close>, and the cursor on this last snapshot;
  whatever came after the current step (after a jump back) is gone.
\<close>

theorem selectSquare_advances:
  assumes "0 \<le> currentStep s" and "currentStep s < int (length (history s))"
    and "0 \<le> i" and "i < int (length (history s ! nat (currentStep s)))"
    and "history s ! nat (currentStep s) ! nat i = None"
    and "calculateWinner (history s ! nat (currentStep s)) = None"
  shows "let current = history s ! nat (currentStep s);
             newHistory = take (Suc (nat (currentStep s))) (history s)
                            @ [current[nat i := Some (calculateNextValue current)]]
         in selectSquare s i = Inr \<lparr>history = newHistory, currentStep = currentStep s + 1\<rparr>
            \<and> currentStep s + 1 = int (length newHistory) - 1
            \<and> length newHistory = nat (currentStep s) + 2"
proof -
  have cur: "js_index (history s) (currentStep s) = Some (history s ! nat (currentStep s))"
    using assms(1,2) by (simp add: js_index_def)
  have cell: "\<not> truthy (js_index (history s ! nat (currentStep s)) i)"
    using assms(3,4,5) by (simp add: js_index_def)
  have "selectSquare s i =
          selectSquare_update (calculateNextValue (history s ! nat (currentStep s))) i s"
    using cur cell assms(6) by (simp add: selectSquare_def)
  then show ?thesis
    using assms(1,2) by (simp add: selectSquare_update_in_range [OF assms(1-4)] Let_def)
qed

text \<open>
  After X on 0 and O on 3, a jump back to step 1 and a move on 4: the snapshot with O
  on 3 is dropped.
\<close>

theorem selectSquare_advances_witness:
  "(let s = jumpToStep
              \<lparr>history = [[None, None, None, None, None, None, None, None, None],
                          [Some PlayerX, None, None, None, None, None, None, None, None],
                          [Some PlayerX, None, None, Some PlayerO, None, None, None, None, None]],
               currentStep = 2\<rparr> 1
    in 0 \<le> currentStep s \<and> currentStep s < int (length (history s))
       \<and> (0::int) \<le> 4 \<and> 4 < int (length (history s ! nat (currentStep s)))
       \<and> history s ! nat (currentStep s) ! nat 4 = None
       \<and> calculateWinner (history s ! nat (currentStep s)) = None
       \<and> selectSquare s 4 =
           Inr \<lparr>history = [[None, None, None, None, None, None, None, None, None],
                           [Some PlayerX, None, None, None, None, None, None, None, None],
                           [Some PlayerX, None, None, None, Some PlayerO, None, None, None, None]],
                currentStep = 2\<rparr>)"
  using selectSquare_advances
    [of "jumpToStep
           \<lparr>history = [[None, None, None, None, None, None, None, None, None],
                       [Some PlayerX, None, None, None, None, None, None, None, None],
                       [Some PlayerX, None, None, Some PlayerO, None, None, None, None, None]],
            currentStep = 2\<rparr> 1" 4]
  by (simp add: jumpToStep_def board_simps Let_def)

text \<open>
  Claim C2. Where the current snapshot has a marker at the index, or has a winner,
  \<open>selectSquare\<close> returns the state as it is: same history, same cursor.
\<close>

theorem selectSquare_noop:
  assumes "js_index (history s) (currentStep s) = Some current"
    and "calculateWinner current \<noteq> None \<or> (\<exists>p. js_index current i = Some (Some p))"
  shows "selectSquare s i = Inr s"
  using assms by (auto simp: selectSquare_def)

text \<open>A click on the square that X has just taken.\<close>

theorem selectSquare_noop_witness:
  "(let s = \<lparr>history = [[None, None, None, None, None, None, None, None, None],
                        [None, None, None, None, Some PlayerX, None, None, None, None]],
             currentStep = 1\<rparr>;
        current = [None, None, None, None, Some PlayerX, None, None, None, None]
    in js_index (history s) (currentStep s) = Some current
       \<and> js_index current 4 = Some (Some PlayerX)
       \<and> selectSquare s 4 = Inr s)"
  using selectSquare_noop
    [of "\<lparr>history = [[None, None, None, None, None, None, None, None, None],
                     [None, None, None, None, Some PlayerX, None, None, None, None]],
          currentStep = 1\<rparr>"
        "[None, None, None, None, Some PlayerX, None, None, None, None]" 4]
  by (simp add: js_index_def Let_def)

text \<open>
  Claim C3. The handler of the button of a step inside the history puts the cursor on
  that step and leaves the history as it is; the list of moves has a button for exactly
  these steps.
\<close>

theorem jumpToStep_frame:
  assumes "0 \<le> step" and "step < int (length (history s))"
  shows "currentStep (jumpToStep s step) = step
         \<and> history (jumpToStep s step) = history s
         \<and> step \<in> set (moveSteps s)"
  using assms unfolding jumpToStep_def moveSteps_def
  by (auto simp: image_iff intro!: bexI [of _ "nat step"])

theorem jumpToStep_frame_witness:
  "(let s = \<lparr>history = [[None, None, None, None, None, None, None, None, None],
                        [None, None, None, None, Some PlayerX, None, None, None, None]],
             currentStep = 1\<rparr>
    in (0::int) \<le> 0 \<and> 0 < int (length (history s))
       \<and> currentStep (jumpToStep s 0) = 0
       \<and> history (jumpToStep s 0) = history s
       \<and> 0 \<in> set (moveSteps s))"
  using jumpToStep_frame
    [of 0 "\<lparr>history = [[None, None, None, None, None, None, None, None, None],
                       [None, None, None, None, Some PlayerX, None, None, None, None]],
            currentStep = 1\<rparr>"]
  by (simp add: Let_def)

text \<open>
  Claim C8. From the default state, \<open>selectSquare\<close> of square 4 gives a history of two
  snapshots, the second with X in the centre and every other cell empty, and the cursor
  on step 1.
\<close>

theorem selectSquare_default_centre:
  "selectSquare defaultState 4 =
     Inr \<lparr>history = [[None, None, None, None, None, None, None, None, None],
                     [None, None, None, None, Some PlayerX, None, None, None, None]],
          currentStep = 1\<rparr>
   \<and> defaultState = \<lparr>history = [[None, None, None, None, None, None, None, None, None]],
                     currentStep = 0\<rparr>"
  by (simp add: selectSquare_def selectSquare_update_def defaultState_def js_index_def
      js_slice0_def js_with_def board_simps Let_def replicate_nine)

theorem selectSquare_default_centre_witness:
  "\<exists>s'. selectSquare defaultState 4 = Inr s'
     \<and> length (history s') = 2
     \<and> history s' ! 1 ! 4 = Some PlayerX
     \<and> filter (\<lambda>c. c \<noteq> None) (history s' ! 1) = [Some PlayerX]
     \<and> currentStep s' = 1"
  using selectSquare_default_centre by simp

section \<open>The reader and its fuel\<close>

lemma skip_ws_length: "length (skip_ws s) \<le> length s"
  by (simp add: skip_ws_def length_dropWhile_le)

lemma skip_ws_Cons_length: "skip_ws s = c # r \<Longrightarrow> length r < length s"
  using skip_ws_length [of s] by simp

lemma parse_string_shorter: "parse_string s = Some (str, r) \<Longrightarrow> length r < length s"
proof (induction s arbitrary: str rule: parse_string.induct)
  case 1
  then show ?case by simp
next
  case (2 c cs)
  then show ?case
    by (fastforce split: if_splits list.splits option.splits)
qed

lemma parse_digits_shorter: "parse_digits acc s = (n, r) \<Longrightarrow> length r \<le> length s"
  by (induction acc s rule: parse_digits.induct) (auto split: if_splits intro: le_SucI)

lemma parse_unsigned_shorter: "parse_unsigned s = Some (n, r) \<Longrightarrow> length r < length s"
proof (cases s)
  case Nil
  assume "parse_unsigned s = Some (n, r)"
  with Nil show ?thesis by (simp add: parse_unsigned_def)
next
  case (Cons d ds)
  assume p: "parse_unsigned s = Some (n, r)"
  show ?thesis
  proof (cases "d = CHR ''0''")
    case True
    with p Cons show ?thesis
      by (auto simp: parse_unsigned_def split: if_splits list.splits)
  next
    case False
    obtain m r' where d: "parse_digits 0 (d # ds) = (m, r')"
      by (cases "parse_digits 0 (d # ds)")
    with p Cons False have "is_digit d" and "r = r'"
      by (auto simp: parse_unsigned_def split: if_splits list.splits)
    with d have "parse_digits (digit_val d) ds = (m, r)" by simp
    from parse_digits_shorter [OF this] Cons show ?thesis by simp
  qed
qed

lemma parse_number_shorter: "parse_number s = Some (v, r) \<Longrightarrow> length r < length s"
  by (cases s)
     (auto simp: parse_number_def split: if_splits dest!: parse_unsigned_shorter)

lemma strip_prefix_length: "strip_prefix p s = Some r \<Longrightarrow> length r + length p = length s"
  by (induction p s rule: strip_prefix.induct) (auto split: if_splits)

lemma parse_shorter:
  "(\<forall>s v r. parse_value n s = Some (v, r) \<longrightarrow> length r < length s)
   \<and> (\<forall>s vs r. parse_elems n s = Some (vs, r) \<longrightarrow> length r < length s)
   \<and> (\<forall>s ms r. parse_members n s = Some (ms, r) \<longrightarrow> length r < length s)"
proof (induction n)
  case 0
  show ?case by simp
next
  case (Suc n)
  have v: "length r < length s" if "parse_value (Suc n) s = Some (v, r)" for s v r
  proof (cases "skip_ws s")
    case Nil
    with that show ?thesis by simp
  next
    case (Cons c r0)
    note l0 = skip_ws_Cons_length [OF Cons]
    consider (arr) "c = CHR ''[''" | (obj) "c \<noteq> CHR ''[''" "c = CHR ''{''"
      | (str) "c \<noteq> CHR ''[''" "c \<noteq> CHR ''{''" "c = CHR 0x22"
      | (num) "c \<noteq> CHR ''[''" "c \<noteq> CHR ''{''" "c \<noteq> CHR 0x22" "c = CHR ''-'' \<or> is_digit c"
      | (lit) "c \<noteq> CHR ''[''" "c \<noteq> CHR ''{''" "c \<noteq> CHR 0x22" "\<not> (c = CHR ''-'' \<or> is_digit c)"
      by blast
    then show ?thesis
    proof cases
      case arr
      show ?thesis
      proof (cases "skip_ws r0")
        case Nil
        with that Cons arr show ?thesis by simp
      next
        case (Cons d r1)
        note l1 = skip_ws_Cons_length [OF Cons]
        from that \<open>skip_ws s = c # r0\<close> arr Cons Suc.IH l0 l1 show ?thesis
          by (fastforce split: if_splits)
      qed
    next
      case obj
      show ?thesis
      proof (cases "skip_ws r0")
        case Nil
        with that Cons obj show ?thesis by simp
      next
        case (Cons d r1)
        note l1 = skip_ws_Cons_length [OF Cons]
        from that \<open>skip_ws s = c # r0\<close> obj Cons Suc.IH l0 l1 show ?thesis
          by (fastforce split: if_splits)
      qed
    next
      case str
      with that Cons l0 show ?thesis
        by (auto dest!: parse_string_shorter)
    next
      case num
      from num(4) that Cons num(1-3) have "parse_number (c # r0) = Some (v, r)"
        by auto
      from parse_number_shorter [OF this] l0 show ?thesis by simp
    next
      case lit
      with that Cons have
        "strip_prefix ''null'' (c # r0) = Some r \<or> strip_prefix ''true'' (c # r0) = Some r
         \<or> strip_prefix ''false'' (c # r0) = Some r"
        by (simp split: option.splits del: strip_prefix.simps)
      then have "length r \<le> length r0"
        using strip_prefix_length [of "''null''" "c # r0" r]
          strip_prefix_length [of "''true''" "c # r0" r]
          strip_prefix_length [of "''false''" "c # r0" r]
        by (elim disjE) simp_all
      with l0 show ?thesis by simp
    qed
  qed
  have e: "length r < length s" if "parse_elems (Suc n) s = Some (vs, r)" for s vs r
  proof -
    from that obtain x r0 where x: "parse_value n s = Some (x, r0)"
      by (auto split: option.splits)
    with Suc.IH have l0: "length r0 < length s" by blast
    from that x obtain c r1 where c: "skip_ws r0 = c # r1"
      by (auto split: list.splits)
    note l1 = skip_ws_Cons_length [OF c]
    from that x c Suc.IH l0 l1 show ?thesis
      by (fastforce split: if_splits)
  qed
  have m: "length r < length s" if "parse_members (Suc n) s = Some (ms, r)" for s ms r
  proof -
    from that obtain q r0 where q: "skip_ws s = q # r0" "q = CHR 0x22"
      by (auto split: list.splits if_splits)
    from that q obtain key r1 where k: "parse_string r0 = Some (key, r1)"
      by (auto split: option.splits)
    from that q k obtain c1 r2 where c1: "skip_ws r1 = c1 # r2" "c1 = CHR '':''"
      by (auto split: list.splits if_splits)
    from that q k c1 obtain x r3 where x: "parse_value n r2 = Some (x, r3)"
      by (auto split: option.splits)
    from that q k c1 x obtain c3 r4 where c3: "skip_ws r3 = c3 # r4"
      by (auto split: list.splits)
    have l: "length r4 < length s"
      using skip_ws_Cons_length [OF q(1)] parse_string_shorter [OF k]
        skip_ws_Cons_length [OF c1(1)] skip_ws_Cons_length [OF c3] Suc.IH x
      by (meson less_trans)
    from that q k c1 x c3 Suc.IH l show ?thesis
      by (fastforce split: if_splits)
  qed
  from v e m show ?case by blast
qed

lemmas parse_simps = parse_value.simps parse_elems.simps parse_members.simps

lemma parse_value_shorter: "parse_value n s = Some (v, r) \<Longrightarrow> length r < length s"
  using parse_shorter [of n] by blast

text \<open>
  One unit of fuel more changes nothing, once the fuel is more than twice the length of
  the text.
\<close>

lemma parse_fuel_Suc:
  "(\<forall>s. 2 * length s < n \<longrightarrow> parse_value (Suc n) s = parse_value n s)
   \<and> (\<forall>s. 2 * length s + 1 < n \<longrightarrow> parse_elems (Suc n) s = parse_elems n s)
   \<and> (\<forall>s. 2 * length s + 1 < n \<longrightarrow> parse_members (Suc n) s = parse_members n s)"
proof (induction n)
  case 0
  show ?case by simp
next
  case (Suc n)
  have v: "parse_value (Suc (Suc n)) s = parse_value (Suc n) s" if "2 * length s < Suc n" for s
  proof (cases "skip_ws s")
    case Nil
    then show ?thesis by simp
  next
    case (Cons c r0)
    from skip_ws_Cons_length [OF Cons] that have "2 * length r0 + 1 < n"
      by simp
    with Suc.IH have e: "parse_elems (Suc n) r0 = parse_elems n r0"
      and m: "parse_members (Suc n) r0 = parse_members n r0"
      by simp_all
    show ?thesis
      unfolding parse_value.simps(2) [of "Suc n" s] parse_value.simps(2) [of n s]
      by (simp add: Cons e m del: parse_simps split: list.split)
  qed
  have e: "parse_elems (Suc (Suc n)) s = parse_elems (Suc n) s" if "2 * length s + 1 < Suc n" for s
  proof -
    from that Suc.IH have pv: "parse_value (Suc n) s = parse_value n s"
      by simp
    show ?thesis
    proof (cases "parse_value n s")
      case None
      with pv show ?thesis
        unfolding parse_elems.simps(2) [of "Suc n" s] parse_elems.simps(2) [of n s]
        by (simp del: parse_simps)
    next
      case (Some a)
      obtain x r where a: "a = (x, r)" by (cases a)
      from Some a have l: "length r < length s"
        by (simp add: parse_value_shorter)
      show ?thesis
      proof (cases "skip_ws r")
        case Nil
        with pv Some a show ?thesis
          unfolding parse_elems.simps(2) [of "Suc n" s] parse_elems.simps(2) [of n s]
          by (simp del: parse_simps)
      next
        case (Cons c r')
        from skip_ws_Cons_length [OF Cons] l that have "2 * length r' + 1 < n"
          by simp
        with Suc.IH have "parse_elems (Suc n) r' = parse_elems n r'"
          by simp
        with pv Some a Cons show ?thesis
          unfolding parse_elems.simps(2) [of "Suc n" s] parse_elems.simps(2) [of n s]
          by (simp del: parse_simps)
      qed
    qed
  qed
  have m: "parse_members (Suc (Suc n)) s = parse_members (Suc n) s"
    if "2 * length s + 1 < Suc n" for s
  proof -
    note unfold = parse_members.simps(2) [of "Suc n" s] parse_members.simps(2) [of n s]
    show ?thesis
    proof (cases "skip_ws s")
      case Nil
      then show ?thesis unfolding unfold by (simp del: parse_simps)
    next
      case q: (Cons q r0)
      note l0 = skip_ws_Cons_length [OF q]
      show ?thesis
      proof (cases "parse_string r0")
        case None
        with q show ?thesis unfolding unfold by (simp del: parse_simps)
      next
        case (Some a)
        obtain key r1 where a: "a = (key, r1)" by (cases a)
        from Some a have l1: "length r1 < length r0"
          by (simp add: parse_string_shorter)
        show ?thesis
        proof (cases "skip_ws r1")
          case Nil
          with q Some a show ?thesis unfolding unfold by (simp del: parse_simps)
        next
          case c1: (Cons c1 r2)
          note l2 = skip_ws_Cons_length [OF c1]
          from l0 l1 l2 that have "2 * length r2 < n" by simp
          with Suc.IH have pv: "parse_value (Suc n) r2 = parse_value n r2"
            by simp
          show ?thesis
          proof (cases "parse_value n r2")
            case None
            with q Some a c1 pv show ?thesis unfolding unfold by (simp del: parse_simps)
          next
            case v: (Some b)
            obtain x r3 where b: "b = (x, r3)" by (cases b)
            from v b have l3: "length r3 < length r2"
              by (simp add: parse_value_shorter)
            show ?thesis
            proof (cases "skip_ws r3")
              case Nil
              with q Some a c1 pv v b show ?thesis unfolding unfold by (simp del: parse_simps)
            next
              case c3: (Cons c3 r4)
              note l4 = skip_ws_Cons_length [OF c3]
              from l0 l1 l2 l3 l4 that have "2 * length r4 + 1 < n" by simp
              with Suc.IH have "parse_members (Suc n) r4 = parse_members n r4"
                by simp
              with q Some a c1 pv v b c3 show ?thesis
                unfolding unfold by (simp del: parse_simps)
            qed
          qed
        qed
      qed
    qed
  qed
  from v e m show ?case by blast
qed

lemma parse_value_fuel:
  "2 * length s < n \<Longrightarrow> parse_value (n + k) s = parse_value n s"
proof (induction k)
  case 0
  show ?case by simp
next
  case (Suc k)
  then have "2 * length s < n + k" by simp
  with parse_fuel_Suc [of "n + k"] have "parse_value (Suc (n + k)) s = parse_value (n + k) s"
    by blast
  with Suc show ?case by simp
qed

text \<open>So \<open>JSON_parse\<close> does not depend on the fuel it starts with.\<close>

lemma JSON_parse_fuel:
  "(case parse_value (2 * length s + 1 + k) s of
      None \<Rightarrow> None
    | Some (v, rest) \<Rightarrow> if skip_ws rest = [] then Some v else None) = JSON_parse s"
proof -
  have "parse_value (2 * length s + 1 + k) s = parse_value (2 * length s + 1) s"
    by (rule parse_value_fuel) simp
  then show ?thesis
    unfolding JSON_parse_def by (simp only:)
qed

section \<open>Reading back the text of a state\<close>

subsection \<open>Decimal numbers\<close>

lemma of_char_digit_char: "d < 10 \<Longrightarrow> of_char (digit_char d) = 48 + d"
  by (simp add: digit_char_def)

lemma is_digit_digit_char: "d < 10 \<Longrightarrow> is_digit (digit_char d)"
  by (simp add: is_digit_def of_char_digit_char)

lemma digit_val_digit_char: "d < 10 \<Longrightarrow> digit_val (digit_char d) = d"
  by (simp add: digit_val_def of_char_digit_char)

lemma digit_char_eq_zero: "d < 10 \<Longrightarrow> digit_char d = CHR ''0'' \<longleftrightarrow> d = 0"
proof -
  assume d: "d < 10"
  have "digit_char d = CHR ''0'' \<longleftrightarrow> (of_char (digit_char d) :: nat) = of_char (CHR ''0'')"
    by (simp only: of_char_eq_iff)
  also have "\<dots> \<longleftrightarrow> d = 0"
    using d by (simp add: of_char_digit_char)
  finally show ?thesis .
qed

lemma is_digit_not_minus: "is_digit c \<Longrightarrow> c \<noteq> CHR ''-''"
  by (auto simp: is_digit_def)

lemma parse_digits_show_nat:
  "parse_digits acc (show_nat n @ rest) = parse_digits (acc * 10 ^ length (show_nat n) + n) rest"
proof (induction n arbitrary: acc rest rule: show_nat.induct)
  case (1 n)
  show ?case
  proof (cases "n < 10")
    case True
    then show ?thesis
      by (subst (1 2) show_nat.simps)
         (simp add: is_digit_digit_char digit_val_digit_char mult.commute)
  next
    case False
    have md: "n mod 10 < 10" by simp
    have "parse_digits acc (show_nat n @ rest)
            = parse_digits acc (show_nat (n div 10) @ digit_char (n mod 10) # rest)"
      using False by (subst show_nat.simps) simp
    also have "\<dots> = parse_digits (acc * 10 ^ length (show_nat (n div 10)) + n div 10)
                        (digit_char (n mod 10) # rest)"
      using False by (rule "1.IH")
    also have "\<dots> = parse_digits
                        (10 * (acc * 10 ^ length (show_nat (n div 10)) + n div 10) + n mod 10) rest"
      using md by (simp add: is_digit_digit_char digit_val_digit_char)
    also have "10 * (acc * 10 ^ length (show_nat (n div 10)) + n div 10) + n mod 10
                 = acc * 10 ^ length (show_nat n) + n"
      using False by (subst (2) show_nat.simps) (simp add: algebra_simps)
    finally show ?thesis .
  qed
qed

lemma show_nat_head:
  "\<exists>d ds. show_nat n = d # ds \<and> is_digit d \<and> (d = CHR ''0'' \<longleftrightarrow> n = 0)
          \<and> (n = 0 \<longrightarrow> ds = [])"
proof (induction n rule: show_nat.induct)
  case (1 n)
  show ?case
  proof (cases "n < 10")
    case True
    then show ?thesis
      by (subst show_nat.simps) (simp add: is_digit_digit_char digit_char_eq_zero)
  next
    case False
    from "1.IH" [OF False] obtain d ds where
      h: "show_nat (n div 10) = d # ds" "is_digit d" "d = CHR ''0'' \<longleftrightarrow> n div 10 = 0"
      by auto
    have "show_nat n = d # (ds @ [digit_char (n mod 10)])"
      using False h(1) by (subst show_nat.simps) simp
    moreover have "n div 10 \<noteq> 0" "n \<noteq> 0" using False by auto
    ultimately show ?thesis using h by simp
  qed
qed

lemma parse_digits_end: "number_end rest \<Longrightarrow> parse_digits acc rest = (acc, rest)"
  by (cases rest) (simp_all add: number_end_def)

lemma parse_unsigned_show_nat:
  assumes "number_end rest"
  shows "parse_unsigned (show_nat n @ rest) = Some (n, rest)"
proof -
  obtain d ds where h: "show_nat n = d # ds" "is_digit d" "d = CHR ''0'' \<longleftrightarrow> n = 0"
    "n = 0 \<longrightarrow> ds = []"
    using show_nat_head by blast
  show ?thesis
  proof (cases "n = 0")
    case True
    with h assms show ?thesis
      by (cases rest) (simp_all add: parse_unsigned_def number_end_def)
  next
    case False
    have "parse_digits 0 (d # ds @ rest) = (n, rest)"
      using parse_digits_show_nat [of 0 n rest] parse_digits_end [OF assms] h(1) by simp
    with False h assms show ?thesis
      by (cases rest) (simp_all add: parse_unsigned_def number_end_def)
  qed
qed

lemma parse_number_show_int:
  assumes "number_end rest"
  shows "parse_number (show_int i @ rest) = Some (JNum i, rest)"
proof (cases "i < 0")
  case True
  then show ?thesis
    by (simp add: parse_number_def show_int_def parse_unsigned_show_nat [OF assms])
next
  case False
  obtain d ds where h: "show_nat (nat i) = d # ds" "is_digit d"
    using show_nat_head by blast
  have "parse_unsigned (d # ds @ rest) = Some (nat i, rest)"
    using parse_unsigned_show_nat [OF assms, of "nat i"] h(1) by simp
  with False h show ?thesis
    by (simp add: parse_number_def show_int_def is_digit_not_minus)
qed

subsection \<open>Lists of values\<close>

lemma skip_ws_no_ws: "\<not> is_ws c \<Longrightarrow> skip_ws (c # r) = c # r"
  by (simp add: skip_ws_def)

lemma commaSep_Cons: "ys \<noteq> [] \<Longrightarrow> commaSep (x # ys) = x @ CHR '','' # commaSep ys"
  by (cases ys) simp_all

lemma parse_elems_commaSep:
  assumes "\<And>x k rest. x \<in> set xs \<Longrightarrow> length (pr x) < k
             \<Longrightarrow> parse_value k (pr x @ rest) = Some (js x, rest)"
    and "xs \<noteq> []" and "length (commaSep (map pr xs)) + 1 < k"
  shows "parse_elems k (commaSep (map pr xs) @ CHR '']'' # rest) = Some (map js xs, rest)"
  using assms
proof (induction xs arbitrary: k)
  case Nil
  then show ?case by simp
next
  case (Cons x xs)
  from Cons.prems(3) obtain m where k: "k = Suc m" by (cases k) auto
  show ?case
  proof (cases "xs = []")
    case True
    with Cons.prems(3) k have "length (pr x) < m" by simp
    then have "parse_value m (pr x @ CHR '']'' # rest) = Some (js x, CHR '']'' # rest)"
      using Cons.prems(1) by simp
    with True k show ?thesis
      by (simp add: skip_ws_no_ws is_ws_def)
  next
    case False
    let ?tail = "commaSep (map pr xs) @ CHR '']'' # rest"
    have sep: "commaSep (map pr (x # xs)) = pr x @ CHR '','' # commaSep (map pr xs)"
      using False by (simp add: commaSep_Cons)
    from Cons.prems(3) k sep have lx: "length (pr x) < m"
      and lt: "length (commaSep (map pr xs)) + 1 < m"
      by simp_all
    have v: "parse_value m (pr x @ CHR '','' # ?tail) = Some (js x, CHR '','' # ?tail)"
      using Cons.prems(1) lx by simp
    have t: "parse_elems m ?tail = Some (map js xs, rest)"
      using Cons.IH [OF _ False lt] Cons.prems(1) by simp
    show ?thesis
      using k sep v t by (simp add: skip_ws_no_ws is_ws_def)
  qed
qed

lemma parse_value_array:
  assumes "\<And>x k rest. x \<in> set xs \<Longrightarrow> length (pr x) < k
             \<Longrightarrow> parse_value k (pr x @ rest) = Some (js x, rest)"
    and "\<And>x. x \<in> set xs \<Longrightarrow> value_start (pr x)"
    and "length (commaSep (map pr xs)) + 2 < k"
  shows "parse_value k (CHR ''['' # commaSep (map pr xs) @ CHR '']'' # rest)
           = Some (JArr (map js xs), rest)"
proof -
  from assms(3) obtain m where k: "k = Suc m" by (cases k) auto
  show ?thesis
  proof (cases xs)
    case Nil
    with k show ?thesis
      by (simp add: skip_ws_no_ws is_ws_def)
  next
    case (Cons x ys)
    then have "value_start (pr x)" using assms(2) by simp
    then obtain c r where c: "pr x = c # r" "\<not> is_ws c" "c \<noteq> CHR '']''"
      by (auto simp: value_start_def split: list.splits)
    have "commaSep (map pr xs) = pr x \<or> commaSep (map pr xs) = pr x @ CHR '','' # commaSep (map pr ys)"
      using Cons by (cases ys) simp_all
    then obtain r' where st: "commaSep (map pr xs) @ CHR '']'' # rest = c # r'"
      using c(1) by auto
    have ne: "xs \<noteq> []" using Cons by simp
    have lt: "length (commaSep (map pr xs)) + 1 < m" using assms(3) k by simp
    have e: "parse_elems m (c # r') = Some (map js xs, rest)"
      using parse_elems_commaSep [of xs pr js m rest, OF assms(1) ne lt] st by simp
    show ?thesis
      using k st e c(2,3) by (simp add: skip_ws_no_ws is_ws_def)
  qed
qed

subsection \<open>Cells, snapshots, states\<close>

lemma parse_value_cell:
  "length (stringifyCell c) < k \<Longrightarrow> parse_value k (stringifyCell c @ rest) = Some (cellJSON c, rest)"
proof -
  assume "length (stringifyCell c) < k"
  then obtain m where k: "k = Suc m" by (cases k) auto
  show ?thesis
  proof (cases c)
    case None
    with k show ?thesis
      by (simp add: skip_ws_no_ws is_ws_def is_digit_def)
  next
    case (Some p)
    with k show ?thesis
      by (cases p) (simp_all add: skip_ws_no_ws is_ws_def quote_def)
  qed
qed

lemma value_start_cell: "value_start (stringifyCell c)"
  by (cases c rule: stringifyCell.cases) (simp_all add: value_start_def is_ws_def quote_def)

lemma parse_value_squares:
  assumes "length (stringifySquares sq) < k"
  shows "parse_value k (stringifySquares sq @ rest) = Some (squaresJSON sq, rest)"
proof -
  have "length (commaSep (map stringifyCell sq)) + 2 < k"
    using assms by (simp add: stringifySquares_def)
  from parse_value_array [of sq stringifyCell cellJSON k rest, OF parse_value_cell value_start_cell this]
  show ?thesis by (simp add: stringifySquares_def squaresJSON_def)
qed

lemma value_start_squares: "value_start (stringifySquares sq)"
  by (simp add: value_start_def stringifySquares_def is_ws_def)

lemma parse_value_history:
  assumes "length (commaSep (map stringifySquares h)) + 2 < k"
  shows "parse_value k (CHR ''['' # commaSep (map stringifySquares h) @ CHR '']'' # rest)
           = Some (JArr (map squaresJSON h), rest)"
  using parse_value_array [of h stringifySquares squaresJSON k rest,
      OF parse_value_squares value_start_squares assms] .

lemma parse_string_plain:
  assumes "\<forall>c \<in> set s. c \<noteq> CHR 0x22 \<and> c \<noteq> CHR 0x5C \<and> \<not> (of_char c :: nat) < 32"
  shows "parse_string (s @ CHR 0x22 # rest) = Some (s, rest)"
  using assms by (induction s) simp_all

lemma parse_string_history:
  "parse_string (''history'' @ CHR 0x22 # rest) = Some (''history'', rest)"
  by (rule parse_string_plain) simp

lemma parse_string_currentStep:
  "parse_string (''currentStep'' @ CHR 0x22 # rest) = Some (''currentStep'', rest)"
  by (rule parse_string_plain) simp

lemma number_end_brace: "number_end (CHR ''}'' # rest)"
  by (simp add: number_end_def is_digit_def)

lemma is_digit_not_special:
  "is_digit c \<Longrightarrow> \<not> is_ws c \<and> c \<noteq> CHR ''['' \<and> c \<noteq> CHR ''{'' \<and> c \<noteq> CHR 0x22"
  by (auto simp: is_digit_def is_ws_def)

lemma parse_value_number:
  assumes "number_end rest"
  shows "parse_value (Suc j) (show_int i @ rest) = Some (JNum i, rest)"
proof -
  obtain d ds where d: "show_int i = d # ds" "d = CHR ''-'' \<or> is_digit d"
    using show_nat_head [of "nat i"] show_nat_head [of "nat (- i)"]
    by (auto simp: show_int_def)
  have n: "parse_number (d # ds @ rest) = Some (JNum i, rest)"
    using parse_number_show_int [OF assms, of i] d(1) by simp
  from d(2) show ?thesis
  proof
    assume "d = CHR ''-''"
    with n d(1) show ?thesis
      by (simp add: skip_ws_no_ws is_ws_def)
  next
    assume "is_digit d"
    with n d(1) is_digit_not_special [of d] show ?thesis
      by (simp add: skip_ws_no_ws)
  qed
qed

lemma parse_members_state:
  assumes "length (commaSep (map stringifySquares (history s))) + 4 < k"
  shows "parse_members k
           (quote ''history'' @ CHR '':'' # CHR ''[''
              # commaSep (map stringifySquares (history s))
              @ CHR '']'' # CHR '','' # quote ''currentStep'' @ CHR '':''
              # show_int (currentStep s) @ CHR ''}'' # rest)
         = Some ([(''history'', JArr (map squaresJSON (history s))),
                  (''currentStep'', JNum (currentStep s))], rest)"
proof -
  from assms obtain j where k: "k = Suc (Suc (Suc j))"
    by (cases k; cases "k - 1"; cases "k - 2") auto
  let ?num = "show_int (currentStep s) @ CHR ''}'' # rest"
  let ?second = "quote ''currentStep'' @ CHR '':'' # ?num"
  have h: "parse_value (Suc (Suc j))
             (CHR ''['' # commaSep (map stringifySquares (history s)) @ CHR '']'' # CHR '','' # ?second)
           = Some (JArr (map squaresJSON (history s)), CHR '','' # ?second)"
    using assms k by (intro parse_value_history) simp
  have n: "parse_value (Suc j) ?num = Some (JNum (currentStep s), CHR ''}'' # rest)"
    using parse_value_number [OF number_end_brace] .
  have second: "parse_members (Suc (Suc j)) ?second
                  = Some ([(''currentStep'', JNum (currentStep s))], rest)"
    using n parse_string_currentStep [of "CHR '':'' # ?num"]
    by (simp add: quote_def skip_ws_no_ws is_ws_def del: parse_value.simps)
  show ?thesis
    unfolding k
    using h second
      parse_string_history [of "CHR '':'' # CHR ''[''
              # commaSep (map stringifySquares (history s))
              @ CHR '']'' # CHR '','' # ?second"]
    by (simp add: quote_def skip_ws_no_ws is_ws_def del: parse_value.simps)
qed

lemma JSON_parse_stringify: "JSON_parse (JSON_stringify s) = Some (stateJSON s)"
proof -
  let ?members = "quote ''history'' @ CHR '':'' # CHR ''[''
              # commaSep (map stringifySquares (history s))
              @ CHR '']'' # CHR '','' # quote ''currentStep'' @ CHR '':''
              # show_int (currentStep s) @ CHR ''}'' # []"
  have sep: "JSON_stringify s = CHR ''{'' # ?members"
    by (simp add: JSON_stringify_def)
  have len: "length (commaSep (map stringifySquares (history s))) + 4
               < 2 * length (JSON_stringify s)"
    by (simp add: JSON_stringify_def quote_def)
  have m: "parse_members (2 * length (JSON_stringify s)) ?members
             = Some ([(''history'', JArr (map squaresJSON (history s))),
                      (''currentStep'', JNum (currentStep s))], [])"
    using parse_members_state [OF len, of "[]"] .
  have q: "skip_ws ?members = CHR 0x22 # tl ?members"
    by (simp add: quote_def skip_ws_no_ws is_ws_def)
  have "parse_value (Suc (2 * length (JSON_stringify s))) (CHR ''{'' # ?members)
          = Some (stateJSON s, [])"
    using m q by (simp add: skip_ws_no_ws is_ws_def stateJSON_def del: parse_members.simps)
  then show ?thesis
    by (simp add: JSON_parse_def sep [symmetric] skip_ws_def)
qed

lemma readCell_cellJSON: "readCell (cellJSON c) = Some c"
  by (cases c rule: stringifyCell.cases) simp_all

lemma those_map_Some: "those (map Some xs) = Some xs"
  by (induction xs) simp_all

lemma readSquares_squaresJSON: "readSquares (squaresJSON sq) = Some sq"
  by (simp add: squaresJSON_def comp_def readCell_cellJSON those_map_Some)

lemma readGameState_stateJSON: "readGameState (stateJSON s) = Some s"
  by (simp add: stateJSON_def obj_get_def comp_def readSquares_squaresJSON those_map_Some)

lemma initialState_persist_valid:
  "validGameState s \<Longrightarrow> initialState JSON_parse (persist s) = s"
  by (simp add: initialState_def persist_def JSON_parse_stringify isValidGameState_def
      readGameState_stateJSON)

section \<open>Invariants of the reachable states\<close>

lemma selectSquare_defaultState:
  assumes "0 \<le> i" and "i < 9"
  shows "selectSquare defaultState i =
           Inr \<lparr>history = [replicate 9 None, (replicate 9 None)[nat i := Some PlayerX]],
                currentStep = 1\<rparr>"
  using assms
  by (simp add: selectSquare_def selectSquare_update_def defaultState_def js_index_def
      js_slice0_def js_with_def board_simps Let_def)

lemma selectSquare_result:
  assumes "selectSquare s i = Inr s'" and "s' \<noteq> s"
  shows "\<exists>sq. history s' = take (Suc (nat (currentStep s))) (history s) @ [sq]
           \<and> currentStep s' = currentStep s + 1
           \<and> 0 \<le> currentStep s \<and> currentStep s < int (length (history s))
           \<and> js_with (history s ! nat (currentStep s)) i
                (Some (calculateNextValue (history s ! nat (currentStep s)))) = Inr sq
           \<and> \<not> truthy (js_index (history s ! nat (currentStep s)) i)"
proof (cases "js_index (history s) (currentStep s)")
  case None
  with assms show ?thesis by (simp add: selectSquare_def)
next
  case (Some current)
  then have rng: "0 \<le> currentStep s" "currentStep s < int (length (history s))"
    and cur: "current = history s ! nat (currentStep s)"
    by (simp_all add: js_index_Some)
  have len: "int (length (take (Suc (nat (currentStep s))) (history s))) = currentStep s + 1"
    using rng by simp
  from assms Some have upd:
    "selectSquare_update (calculateNextValue current) i s = Inr s'"
    and falsy: "\<not> truthy (js_index current i)"
    by (auto simp: selectSquare_def split: if_splits)
  from upd Some obtain sq where
    sq: "js_with current i (Some (calculateNextValue current)) = Inr sq"
    and s': "s' = \<lparr>history = js_slice0 (history s) (currentStep s + 1) @ [sq],
                   currentStep = int (length (js_slice0 (history s) (currentStep s + 1)))\<rparr>"
    by (auto simp: selectSquare_update_def Let_def split: sum.splits)
  show ?thesis
    using rng len sq s' falsy by (simp add: js_slice0_in_range cur)
qed

lemma cursorInRange_selectSquare:
  assumes "selectSquare s i = Inr s'" and "cursorInRange s"
  shows "cursorInRange s'"
proof (cases "s' = s")
  case True
  with assms show ?thesis by simp
next
  case False
  from selectSquare_result [OF assms(1) False] show ?thesis
    by (auto simp: cursorInRange_def)
qed

lemma cursorInRange_jumpToStep:
  "step \<in> set (moveSteps s) \<Longrightarrow> cursorInRange (jumpToStep s step)"
  by (auto simp: cursorInRange_def moveSteps_def jumpToStep_def)

lemma cursorInRange_defaultState: "cursorInRange defaultState"
  by (simp add: cursorInRange_def defaultState_def)

lemma validGameState_cursorInRange: "validGameState s \<Longrightarrow> cursorInRange s"
  by (simp add: validGameState_def cursorInRange_def)

lemma cursorInRange_initialState: "cursorInRange (initialState parse item)"
  by (auto simp: initialState_def isValidGameState_def cursorInRange_defaultState
      validGameState_cursorInRange split: option.splits)

lemma cursorInRange_reachable:
  assumes "reachable s0 s" and "cursorInRange s0"
  shows "cursorInRange s"
  using assms
proof (induction rule: reachable.induct)
  case reachable_init
  then show ?case by simp
next
  case (reachable_select s i s')
  then show ?case by (simp add: cursorInRange_selectSquare)
next
  case (reachable_jump s step)
  then show ?case by (simp add: cursorInRange_jumpToStep)
next
  case (reachable_restart s)
  then show ?case by (simp add: restart_def cursorInRange_defaultState)
qed

lemma initialState_absent: "initialState JSON_parse None = defaultState"
  by code_simp

text \<open>
  Claim C4. Whatever the slot of \<open>localStorage\<close> holds and whatever \<open>JSON.parse\<close> makes of
  it, every state that the component reaches from its initial state (the default state,
  or the stored state that \<open>isValidGameState\<close> accepts) by clicks on squares, on steps of
  the list of moves and on \<open>restart\<close> has a history that is not empty and a cursor inside
  it.
\<close>

theorem reachable_cursor_in_range:
  assumes "reachable s0 s"
    and "s0 = defaultState \<or> s0 = initialState parse item"
  shows "history s \<noteq> [] \<and> 0 \<le> currentStep s \<and> currentStep s < int (length (history s))"
proof -
  from assms(2) have "cursorInRange s0"
    by (auto simp: cursorInRange_defaultState cursorInRange_initialState)
  from cursorInRange_reachable [OF assms(1) this] show ?thesis
    by (simp add: cursorInRange_def)
qed

text \<open>Nothing stored; X takes the centre.\<close>

theorem reachable_cursor_in_range_witness:
  "initialState JSON_parse None = defaultState
   \<and> reachable (initialState JSON_parse None)
        \<lparr>history = [replicate 9 None, (replicate 9 None)[4 := Some PlayerX]], currentStep = 1\<rparr>
   \<and> history \<lparr>history = [replicate 9 None, (replicate 9 None)[4 := Some PlayerX]],
               currentStep = 1\<rparr> \<noteq> []
   \<and> 0 \<le> currentStep \<lparr>history = [replicate 9 None, (replicate 9 None)[4 := Some PlayerX]],
                         currentStep = 1\<rparr>
   \<and> currentStep \<lparr>history = [replicate 9 None, (replicate 9 None)[4 := Some PlayerX]],
                   currentStep = 1\<rparr>
       < int (length (history \<lparr>history = [replicate 9 None,
                                           (replicate 9 None)[4 := Some PlayerX]],
                                currentStep = 1\<rparr>))"
proof -
  have "reachable defaultState defaultState"
    by (rule reachable_init)
  then have r: "reachable (initialState JSON_parse None)
     \<lparr>history = [replicate 9 None, (replicate 9 None)[4 := Some PlayerX]], currentStep = 1\<rparr>"
    unfolding initialState_absent
    by (rule reachable_select [where i = 4]) (simp_all add: selectSquare_defaultState)
  from reachable_cursor_in_range [OF r, of JSON_parse None] r initialState_absent
  show ?thesis by simp
qed

section \<open>The guard of a move\<close>

text \<open>
  Claim C9. For a cursor inside the history and a square of the current snapshot,
  \<open>selectSquare\<close> returns a state other than the one it was given exactly when the
  current snapshot has no winner and its cell at the index is empty, and returns the
  state it was given in every other case; it does not raise. Nothing but the snapshot
  at \<open>currentStep\<close> is looked at: after a jump back, a winner or a marker in a later
  snapshot does not count.
\<close>

theorem selectSquare_changes_iff:
  assumes "0 \<le> currentStep s" and "currentStep s < int (length (history s))"
    and "0 \<le> i" and "i < int (length (history s ! nat (currentStep s)))"
  shows "((\<exists>s'. selectSquare s i = Inr s' \<and> s' \<noteq> s) \<longleftrightarrow>
            calculateWinner (history s ! nat (currentStep s)) = None
            \<and> history s ! nat (currentStep s) ! nat i = None)
         \<and> (selectSquare s i = Inr s \<longleftrightarrow>
              \<not> (calculateWinner (history s ! nat (currentStep s)) = None
                 \<and> history s ! nat (currentStep s) ! nat i = None))"
proof -
  let ?cur = "history s ! nat (currentStep s)"
  let ?new = "\<lparr>history = take (Suc (nat (currentStep s))) (history s)
                           @ [?cur[nat i := Some (calculateNextValue ?cur)]],
               currentStep = currentStep s + 1\<rparr>"
  have a: "js_index (history s) (currentStep s) = Some ?cur"
    using assms(1,2) by (simp add: js_index_def)
  have b: "js_index ?cur i = Some (?cur ! nat i)"
    using assms(3,4) by (simp add: js_index_def)
  have t: "truthy (Some (?cur ! nat i)) \<longleftrightarrow> ?cur ! nat i \<noteq> None"
    by (cases "?cur ! nat i") simp_all
  have upd: "selectSquare_update (calculateNextValue ?cur) i s = Inr ?new"
    by (rule selectSquare_update_in_range [OF assms])
  have new: "?new \<noteq> s"
  proof
    assume "?new = s"
    then have "currentStep ?new = currentStep s" by simp
    then show False by simp
  qed
  show ?thesis
  proof (cases "calculateWinner ?cur = None \<and> ?cur ! nat i = None")
    case True
    with a b t upd have "selectSquare s i = Inr ?new"
      by (simp add: selectSquare_def)
    with True new show ?thesis by auto
  next
    case False
    with a b t have "selectSquare s i = Inr s"
      by (auto simp: selectSquare_def)
    with False show ?thesis by auto
  qed
qed

text \<open>
  X on 0, O on 3, X on 1, O on 4, X on 2: X has won the top row. After a jump back to
  step 2, a move on square 1 is taken and gives the history up to step 2 with X on 1
  as fourth snapshot, though X has won in the snapshot of step 5 and square 1 is filled
  there.
\<close>

theorem selectSquare_changes_iff_witness:
  "(let s = jumpToStep
              \<lparr>history =
                 [[None, None, None, None, None, None, None, None, None],
                  [Some PlayerX, None, None, None, None, None, None, None, None],
                  [Some PlayerX, None, None, Some PlayerO, None, None, None, None, None],
                  [Some PlayerX, Some PlayerX, None, Some PlayerO, None, None, None, None, None],
                  [Some PlayerX, Some PlayerX, None, Some PlayerO, Some PlayerO, None, None, None,
                   None],
                  [Some PlayerX, Some PlayerX, Some PlayerX, Some PlayerO, Some PlayerO, None,
                   None, None, None]],
               currentStep = 5\<rparr> 2
    in 0 \<le> currentStep s \<and> currentStep s < int (length (history s))
       \<and> (0::int) \<le> 1 \<and> 1 < int (length (history s ! nat (currentStep s)))
       \<and> (\<exists>s'. selectSquare s 1 = Inr s' \<and> s' \<noteq> s)
       \<and> selectSquare s 1 \<noteq> Inr s
       \<and> selectSquare s 1 =
           Inr \<lparr>history =
                  [[None, None, None, None, None, None, None, None, None],
                   [Some PlayerX, None, None, None, None, None, None, None, None],
                   [Some PlayerX, None, None, Some PlayerO, None, None, None, None, None],
                   [Some PlayerX, Some PlayerX, None, Some PlayerO, None, None, None, None,
                    None]],
                currentStep = 3\<rparr>
       \<and> calculateWinner (history s ! nat (currentStep s)) = None
       \<and> history s ! nat (currentStep s) ! nat 1 = None
       \<and> calculateWinner (history s ! 5) = Some PlayerX
       \<and> history s ! 5 ! 1 = Some PlayerX)"
proof -
  let ?s = "jumpToStep
              \<lparr>history =
                 [[None, None, None, None, None, None, None, None, None],
                  [Some PlayerX, None, None, None, None, None, None, None, None],
                  [Some PlayerX, None, None, Some PlayerO, None, None, None, None, None],
                  [Some PlayerX, Some PlayerX, None, Some PlayerO, None, None, None, None, None],
                  [Some PlayerX, Some PlayerX, None, Some PlayerO, Some PlayerO, None, None, None,
                   None],
                  [Some PlayerX, Some PlayerX, Some PlayerX, Some PlayerO, Some PlayerO, None,
                   None, None, None]],
               currentStep = 5\<rparr> 2"
  have h: "0 \<le> currentStep ?s" "currentStep ?s < int (length (history ?s))"
    "(0::int) \<le> 1" "1 < int (length (history ?s ! nat (currentStep ?s)))"
    by (simp_all add: jumpToStep_def)
  have g: "calculateWinner (history ?s ! nat (currentStep ?s)) = None"
    "history ?s ! nat (currentStep ?s) ! nat 1 = None"
    "calculateWinner (history ?s ! 5) = Some PlayerX"
    "history ?s ! 5 ! 1 = Some PlayerX"
    by (simp_all add: jumpToStep_def board_simps)
  have r: "selectSquare ?s 1 =
           Inr \<lparr>history =
                  [[None, None, None, None, None, None, None, None, None],
                   [Some PlayerX, None, None, None, None, None, None, None, None],
                   [Some PlayerX, None, None, Some PlayerO, None, None, None, None, None],
                   [Some PlayerX, Some PlayerX, None, Some PlayerO, None, None, None, None,
                    None]],
                currentStep = 3\<rparr>"
    by (simp add: selectSquare_def selectSquare_update_def jumpToStep_def js_index_def
        js_slice0_def js_with_def board_simps Let_def)
  from selectSquare_changes_iff [OF h] g(1,2)
  have c: "\<exists>s'. selectSquare ?s 1 = Inr s' \<and> s' \<noteq> ?s"
    and n: "selectSquare ?s 1 \<noteq> Inr ?s"
    by blast+
  from h g r c n show ?thesis
    unfolding Let_def by (intro conjI)
qed

section \<open>A move on a square of the board does not fail\<close>

text \<open>
  Claim C10. For a cursor inside the history, a current snapshot of nine cells and a
  square \<open>0 \<le> i < 9\<close>, every read of \<open>selectSquare\<close> is inside its array, \<open>with\<close> does not
  raise, and \<open>selectSquare\<close> returns a state. The guard on the cell does not keep other
  indices out: on the default state the index 9 passes it and \<open>with\<close> raises
  \<open>RangeError\<close>.
\<close>

theorem selectSquare_total:
  assumes "0 \<le> currentStep s" and "currentStep s < int (length (history s))"
    and "length (history s ! nat (currentStep s)) = 9"
    and "0 \<le> i" and "i < 9"
  shows "js_index (history s) (currentStep s) = Some (history s ! nat (currentStep s))
         \<and> js_index (history s ! nat (currentStep s)) i
             = Some (history s ! nat (currentStep s) ! nat i)
         \<and> js_with (history s ! nat (currentStep s)) i v
             = Inr ((history s ! nat (currentStep s))[nat i := v])
         \<and> (\<exists>s'. selectSquare s i = Inr s')
         \<and> selectSquare defaultState 9 = Inl RangeError"
proof -
  let ?cur = "history s ! nat (currentStep s)"
  have a: "js_index (history s) (currentStep s) = Some ?cur"
    using assms(1,2) by (simp add: js_index_def)
  have b: "js_index ?cur i = Some (?cur ! nat i)"
    using assms(3,4,5) by (simp add: js_index_def)
  have c: "js_with ?cur i v = Inr (?cur[nat i := v])" for v
    using assms(3,4,5) by (simp add: js_with_in_range)
  have d: "\<exists>s'. selectSquare s i = Inr s'"
    using a c by (simp add: selectSquare_def selectSquare_update_def Let_def)
  have e: "selectSquare defaultState 9 = Inl RangeError"
    by (simp add: selectSquare_def selectSquare_update_def defaultState_def js_index_def
      js_slice0_def js_with_def board_simps Let_def replicate_nine)
  from a b c d e show ?thesis by simp
qed

theorem selectSquare_total_witness:
  "0 \<le> currentStep defaultState
   \<and> currentStep defaultState < int (length (history defaultState))
   \<and> length (history defaultState ! nat (currentStep defaultState)) = 9
   \<and> (0::int) \<le> 8 \<and> (8::int) < 9
   \<and> (\<exists>s'. selectSquare defaultState 8 = Inr s')
   \<and> selectSquare defaultState 9 = Inl RangeError"
  using selectSquare_total [of defaultState 8]
  by (simp add: defaultState_def)

section \<open>The initial state\<close>

text \<open>
  Claim C6. Whatever \<open>JSON.parse\<close> is: with no entry in the slot (and \<open>JSON.parse\<close> of
  the text \<open>null\<close> giving \<open>null\<close>), with a text that \<open>JSON.parse\<close> rejects, and with a
  parsed value that \<open>isValidGameState\<close> rejects, the initial state is the default state;
  a parsed value that \<open>isValidGameState\<close> accepts is the initial state.
\<close>

theorem initialState_cases:
  "(parse ''null'' = Some JNull \<longrightarrow> initialState parse None = defaultState)
   \<and> (parse t = None \<longrightarrow> initialState parse (Some t) = defaultState)
   \<and> (parse t = Some v \<and> \<not> isValidGameState v
        \<longrightarrow> initialState parse (Some t) = defaultState)
   \<and> (parse t = Some v \<and> isValidGameState v
        \<longrightarrow> readGameState v = Some (initialState parse (Some t)))
   \<and> defaultState = \<lparr>history = [[None, None, None, None, None, None, None, None, None]],
                     currentStep = 0\<rparr>"
  by (auto simp: initialState_def isValidGameState_def defaultState_def replicate_nine
      split: option.splits)

text \<open>
  No entry; a text that is not JSON; the text of an object with an empty history; the
  text that the component has stored for the default state.
\<close>

theorem initialState_cases_witness:
  "JSON_parse ''null'' = Some JNull
   \<and> initialState JSON_parse None = defaultState
   \<and> JSON_parse ''{oops'' = None
   \<and> initialState JSON_parse (Some ''{oops'') = defaultState
   \<and> JSON_parse (CHR ''{'' # quote ''history'' @ '':[],'' @ quote ''currentStep'' @ '':0}'')
       = Some (JObj [(''history'', JArr []), (''currentStep'', JNum 0)])
   \<and> \<not> isValidGameState (JObj [(''history'', JArr []), (''currentStep'', JNum 0)])
   \<and> initialState JSON_parse
         (Some (CHR ''{'' # quote ''history'' @ '':[],'' @ quote ''currentStep'' @ '':0}''))
       = defaultState
   \<and> JSON_parse (JSON_stringify defaultState) = Some (stateJSON defaultState)
   \<and> isValidGameState (stateJSON defaultState)
   \<and> readGameState (stateJSON defaultState)
       = Some (initialState JSON_parse (Some (JSON_stringify defaultState)))"
proof -
  have a: "JSON_parse ''null'' = Some JNull"
    by code_simp
  have b: "JSON_parse ''{oops'' = None"
    by code_simp
  have c: "JSON_parse (CHR ''{'' # quote ''history'' @ '':[],'' @ quote ''currentStep'' @ '':0}'')
             = Some (JObj [(''history'', JArr []), (''currentStep'', JNum 0)])"
    by code_simp
  have d: "\<not> isValidGameState (JObj [(''history'', JArr []), (''currentStep'', JNum 0)])"
    by code_simp
  have e: "JSON_parse (JSON_stringify defaultState) = Some (stateJSON defaultState)"
    by (rule JSON_parse_stringify)
  have f: "isValidGameState (stateJSON defaultState)"
    by (simp add: isValidGameState_def readGameState_stateJSON validGameState_def
        defaultState_def)
  from a b c d e f
    initialState_cases [of JSON_parse "''{oops''" JNull]
    initialState_cases [of JSON_parse
      "CHR ''{'' # quote ''history'' @ '':[],'' @ quote ''currentStep'' @ '':0}''"
      "JObj [(''history'', JArr []), (''currentStep'', JNum 0)]"]
    initialState_cases [of JSON_parse "JSON_stringify defaultState" "stateJSON defaultState"]
  show ?thesis by blast
qed

section \<open>Storing a state and loading it again\<close>

text \<open>
  Claim C7. For a state with a non-empty history of snapshots of nine cells and a cursor
  inside it, the text that the effect stores parses to the value of the state,
  \<open>isValidGameState\<close> accepts that value, and the initial state of the next start is the
  state that was stored.
\<close>

theorem persist_initialState_roundtrip:
  assumes "validGameState s"
  shows "persist s = Some (JSON_stringify s)
         \<and> JSON_parse (JSON_stringify s) = Some (stateJSON s)
         \<and> isValidGameState (stateJSON s)
         \<and> readGameState (stateJSON s) = Some s
         \<and> initialState JSON_parse (persist s) = s"
  using assms
  by (simp add: persist_def JSON_parse_stringify isValidGameState_def readGameState_stateJSON
      initialState_def)

theorem persist_initialState_roundtrip_witness:
  "validGameState
     \<lparr>history = [[None, None, None, None, None, None, None, None, None],
                 [None, None, None, None, Some PlayerX, None, None, None, None],
                 [Some PlayerO, None, None, None, Some PlayerX, None, None, None, None]],
      currentStep = 1\<rparr>
   \<and> initialState JSON_parse
        (persist
          \<lparr>history = [[None, None, None, None, None, None, None, None, None],
                      [None, None, None, None, Some PlayerX, None, None, None, None],
                      [Some PlayerO, None, None, None, Some PlayerX, None, None, None, None]],
           currentStep = 1\<rparr>)
      = \<lparr>history = [[None, None, None, None, None, None, None, None, None],
                    [None, None, None, None, Some PlayerX, None, None, None, None],
                    [Some PlayerO, None, None, None, Some PlayerX, None, None, None, None]],
         currentStep = 1\<rparr>"
proof -
  have v: "validGameState
     \<lparr>history = [[None, None, None, None, None, None, None, None, None],
                 [None, None, None, None, Some PlayerX, None, None, None, None],
                 [Some PlayerO, None, None, None, Some PlayerX, None, None, None, None]],
      currentStep = 1\<rparr>"
    by (simp add: validGameState_def)
  from persist_initialState_roundtrip [OF v] v show ?thesis by blast
qed

section \<open>One cell more in each snapshot\<close>

lemma historySteps_iff:
  "historySteps h \<longleftrightarrow> (\<forall>i. 1 \<le> i \<and> i < length h \<longrightarrow> oneCellFilled (h ! (i - 1)) (h ! i))"
  by (auto simp: historySteps_def list_all_iff)

lemma changedCells_same: "changedCells xs xs = []"
  by (induction xs) (simp_all add: changedCells_def)

lemma changedCells_update:
  "i < length xs \<Longrightarrow> xs ! i \<noteq> v \<Longrightarrow> changedCells xs (xs[i := v]) = [(xs ! i, v)]"
proof (induction xs arbitrary: i)
  case Nil
  then show ?case by simp
next
  case (Cons x xs)
  show ?case
  proof (cases i)
    case 0
    with Cons.prems changedCells_same [of xs] show ?thesis
      by (simp add: changedCells_def)
  next
    case (Suc j)
    with Cons.prems Cons.IH [of j] show ?thesis
      by (simp add: changedCells_def)
  qed
qed

lemma oneCellFilled_update:
  "i < length xs \<Longrightarrow> xs ! i = None \<Longrightarrow> oneCellFilled xs (xs[i := Some p])"
  by (simp add: oneCellFilled_def changedCells_update)

lemma historySteps_append:
  assumes "historySteps h" and "c < length h" and "oneCellFilled (h ! c) sq"
  shows "historySteps (take (Suc c) h @ [sq])"
  unfolding historySteps_iff
proof (intro allI impI)
  fix i
  assume i: "1 \<le> i \<and> i < length (take (Suc c) h @ [sq])"
  have len: "length (take (Suc c) h) = Suc c"
    using assms(2) by simp
  show "oneCellFilled ((take (Suc c) h @ [sq]) ! (i - 1)) ((take (Suc c) h @ [sq]) ! i)"
  proof (cases "i \<le> c")
    case True
    with i assms(1,2) have "oneCellFilled (h ! (i - 1)) (h ! i)"
      by (simp add: historySteps_iff)
    with True i len show ?thesis
      by (auto simp: nth_append)
  next
    case False
    with i len have "i = Suc c" by simp
    with assms(3) len show ?thesis
      by (simp add: nth_append)
  qed
qed

lemma historySteps_selectSquare:
  assumes "selectSquare s i = Inr s'" and "0 \<le> i" and "historySteps (history s)"
  shows "historySteps (history s')"
proof (cases "s' = s")
  case True
  with assms show ?thesis by simp
next
  case False
  let ?cur = "history s ! nat (currentStep s)"
  from selectSquare_result [OF assms(1) False] obtain sq where
    h: "history s' = take (Suc (nat (currentStep s))) (history s) @ [sq]"
    and rng: "0 \<le> currentStep s" "currentStep s < int (length (history s))"
    and w: "js_with ?cur i (Some (calculateNextValue ?cur)) = Inr sq"
    and falsy: "\<not> truthy (js_index ?cur i)"
    by blast
  from w assms(2) have i: "nat i < length ?cur"
    and sq: "sq = ?cur[nat i := Some (calculateNextValue ?cur)]"
    by (auto simp: js_with_def Let_def split: if_splits)
  from i assms(2) have "i < int (length ?cur)"
    by linarith
  with falsy assms(2) have "?cur ! nat i = None"
    by (cases "?cur ! nat i") (simp_all add: js_index_def)
  with i sq have "oneCellFilled ?cur sq"
    by (simp add: oneCellFilled_update)
  with assms(3) rng h show ?thesis
    by (simp add: historySteps_append)
qed

lemma historySteps_defaultState: "historySteps (history defaultState)"
  by (simp add: historySteps_def defaultState_def)

lemma historySteps_reachable:
  assumes "reachable s0 s" and "historySteps (history s0)"
  shows "historySteps (history s)"
  using assms
proof (induction rule: reachable.induct)
  case reachable_init
  then show ?case by simp
next
  case (reachable_select s i s')
  then show ?case by (simp add: historySteps_selectSquare)
next
  case (reachable_jump s step)
  then show ?case by (simp add: jumpToStep_def)
next
  case (reachable_restart s)
  then show ?case by (simp add: restart_def historySteps_defaultState)
qed

text \<open>
  Claim C5, as amended. In every state that the component reaches from the default
  state, or from an initial state whose history has the property, each snapshot but
  the first is its predecessor with exactly one empty cell filled in.
\<close>

theorem reachable_history_steps:
  assumes "reachable s0 s"
    and "s0 = defaultState \<or> historySteps (history s0)"
  shows "\<forall>i. 1 \<le> i \<and> i < length (history s)
             \<longrightarrow> oneCellFilled (history s ! (i - 1)) (history s ! i)"
proof -
  from assms(2) have "historySteps (history s0)"
    by (auto simp: historySteps_defaultState)
  from historySteps_reachable [OF assms(1) this] show ?thesis
    by (simp add: historySteps_iff)
qed

theorem reachable_history_steps_witness:
  "reachable defaultState
     \<lparr>history = [replicate 9 None, (replicate 9 None)[4 := Some PlayerX]], currentStep = 1\<rparr>
   \<and> oneCellFilled (replicate 9 None) ((replicate 9 None)[4 := Some PlayerX])"
proof -
  have "reachable defaultState defaultState"
    by (rule reachable_init)
  then have r: "reachable defaultState
     \<lparr>history = [replicate 9 None, (replicate 9 None)[4 := Some PlayerX]], currentStep = 1\<rparr>"
    by (rule reachable_select [where i = 4]) (simp_all add: selectSquare_defaultState)
  from reachable_history_steps [OF r, THEN spec, of 1] have
    "oneCellFilled (replicate 9 None) ((replicate 9 None)[4 := Some PlayerX])"
    by simp
  with r show ?thesis by simp
qed

text \<open>
  Claim C5 as it is stated fails for a state taken from storage: the text of a state
  with an empty board followed by a board full of X is read back and accepted, and the
  second snapshot differs from the first in nine cells.
\<close>

theorem loaded_history_counterexample:
  "isValidGameState
     (stateJSON \<lparr>history = [replicate 9 None, replicate 9 (Some PlayerX)], currentStep = 1\<rparr>)
   \<and> initialState JSON_parse
        (Some (JSON_stringify
          \<lparr>history = [replicate 9 None, replicate 9 (Some PlayerX)], currentStep = 1\<rparr>))
      = \<lparr>history = [replicate 9 None, replicate 9 (Some PlayerX)], currentStep = 1\<rparr>
   \<and> reachable
        (initialState JSON_parse
          (Some (JSON_stringify
            \<lparr>history = [replicate 9 None, replicate 9 (Some PlayerX)], currentStep = 1\<rparr>)))
        \<lparr>history = [replicate 9 None, replicate 9 (Some PlayerX)], currentStep = 1\<rparr>
   \<and> \<not> oneCellFilled (replicate 9 None) (replicate 9 (Some PlayerX))
   \<and> length (changedCells (replicate 9 None) (replicate 9 (Some PlayerX))) = 9"
proof -
  let ?s = "\<lparr>history = [replicate 9 None, replicate 9 (Some PlayerX)], currentStep = 1\<rparr>"
  have v: "validGameState ?s"
    by (simp add: validGameState_def)
  then have a: "isValidGameState (stateJSON ?s)"
    by (simp add: isValidGameState_def readGameState_stateJSON)
  have b: "initialState JSON_parse (Some (JSON_stringify ?s)) = ?s"
    using initialState_persist_valid [OF v] by (simp add: persist_def)
  have c: "reachable (initialState JSON_parse (Some (JSON_stringify ?s))) ?s"
    unfolding b by (rule reachable_init)
  have d: "changedCells (replicate 9 None) (replicate 9 (Some PlayerX))
             = replicate 9 (None, Some PlayerX)"
    by (simp add: changedCells_def replicate_nine)
  have e: "\<not> oneCellFilled (replicate 9 None) (replicate 9 (Some PlayerX))"
    unfolding oneCellFilled_def d by (simp add: replicate_nine)
  from a b c d e show ?thesis by simp
qed

end
